theory Spec2Isabelle
  imports Main "HOL-Library.Sublist"
begin

section \<open>The event-drop processor of gnmic\<close>

text \<open>
  The development follows \<^verbatim>\<open>src/cmd/capabilities.go\<close>, second document
  (package \<^verbatim>\<open>event_drop\<close>): the configuration struct \<^verbatim>\<open>Drop\<close>, its
  initialisation \<^verbatim>\<open>Init\<close>, the batch filter \<^verbatim>\<open>Apply\<close> and the generic
  in-place compaction \<^verbatim>\<open>shift\<close>.

  The Go standard library (\<^verbatim>\<open>strings\<close>, \<^verbatim>\<open>regexp\<close>), the query library
  \<^verbatim>\<open>gojq\<close> and the package \<^verbatim>\<open>formatters\<close> are not part of the source file.
  Their functions are parameters of the model, collected in the record \<open>env\<close>; every
  theorem below holds for every such environment. Writes to the logger have no effect on
  any returned value and are left out.
\<close>

subsection \<open>Data\<close>

text \<open>A Go \<^verbatim>\<open>error\<close> value, by its message; \<^verbatim>\<open>nil\<close> is \<open>None\<close> of
  \<open>error option\<close>.\<close>

datatype error = Error string

text \<open>The run-time panic of a slice expression whose bounds are out of range.\<close>

datatype panic = SliceBoundsOutOfRange

text \<open>A value of Go's \<^verbatim>\<open>interface{}\<close>, by its dynamic type: the type assertion
  \<^verbatim>\<open>v.(string)\<close> succeeds on \<open>StringV\<close> only. The source tells strings from
  all other dynamic types and tells these no further apart; numbers, booleans and
  \<^verbatim>\<open>nil\<close> stand for them.\<close>

datatype dynval = StringV string | IntV int | BoolV bool | NilV

text \<open>Modelled from the spec: the type \<^verbatim>\<open>formatters.EventMsg\<close> is declared outside
  the source file. An event carries a mapping of tags (string to string) and a mapping of
  values (string to a dynamically typed scalar). A Go map is iterated over all its entries
  in an unspecified order; each mapping is the list of its entries in the order of one
  such iteration. The fields are \<^verbatim>\<open>Tags\<close> and \<^verbatim>\<open>Values\<close> in the source; they are
  prefixed here since \<^verbatim>\<open>Drop\<close> has fields of the same names.\<close>

record EventMsg =
  evTags :: "(string \<times> string) list"
  evValues :: "(string \<times> dynval) list"

text \<open>The struct \<^verbatim>\<open>Drop\<close>: the configuration fields, then the compiled ones. A compiled
  regular expression is a value of the type parameter \<open>'re\<close>, a compiled query one of
  \<open>'code\<close>; the pointer \<^verbatim>\<open>code\<close> may be \<^verbatim>\<open>nil\<close>.\<close>

record ('re, 'code) Drop =
  Condition :: string
  TagNames :: "string list"
  ValueNames :: "string list"
  Tags :: "string list"
  Values :: "string list"
  Debug :: bool
  tagNames :: "'re list"
  valueNames :: "'re list"
  tags :: "'re list"
  "values" :: "'re list"
  code :: "'code option"

text \<open>The functions the source calls and does not define. A Go function returning
  \<^verbatim>\<open>(x, error)\<close> returns \<open>Inl err\<close> when the error is not \<^verbatim>\<open>nil\<close>.
  \<open>DecodeConfig\<close> writes into the receiver and returns an error or \<^verbatim>\<open>nil\<close>.
  Indices and lengths are Go's \<^verbatim>\<open>int\<close>; every one of them is bounded by the length of
  a slice, so that no arithmetic on them wraps around.\<close>

record ('cfg, 're, 'q, 'code) env =
  DecodeConfig :: "'cfg \<Rightarrow> ('re, 'code) Drop \<Rightarrow> ('re, 'code) Drop \<times> error option"
  TrimSpace :: "string \<Rightarrow> string"
  Parse :: "string \<Rightarrow> error + 'q"
  Compile :: "'q \<Rightarrow> error + 'code"
  regexpCompile :: "string \<Rightarrow> error + 're"
  MatchString :: "'re \<Rightarrow> string \<Rightarrow> bool"
  CheckCondition :: "'code option \<Rightarrow> EventMsg \<Rightarrow> error + bool"

text \<open>A Go slice: the cells of its backing array from the slice's first element on, and
  its length. The elements of the slice are the first \<open>len\<close> cells.\<close>

record 'a slice =
  array :: "'a list"
  len :: nat

definition elems :: "'a slice \<Rightarrow> 'a list" where
  "elems s = take (len s) (array s)"

definition sliceOf :: "'a list \<Rightarrow> 'a slice" where
  "sliceOf xs = \<lparr>array = xs, len = length xs\<rparr>"

subsection \<open>Init\<close>

text \<open>One of the four loops of \<^verbatim>\<open>Init\<close> that compile a list of regular-expression
  sources: each source is compiled in order and appended to the compiled list; the first
  failure returns its error, leaving the compiled list as it is at that point.\<close>

fun compileRegs :: "(string \<Rightarrow> error + 're) \<Rightarrow> string list \<Rightarrow> 're list \<Rightarrow> 're list \<times> error option" where
  "compileRegs C [] acc = (acc, None)"
| "compileRegs C (reg # regs) acc =
     (case C reg of
        Inl err \<Rightarrow> (acc, Some err)
      | Inr re \<Rightarrow> compileRegs C regs (acc @ [re]))"

text \<open>The body of \<^verbatim>\<open>Init\<close> after the configuration has been decoded and the options
  applied (lines 175 to 227). The result is the receiver after the call and the returned
  error. When \<^verbatim>\<open>gojq.Compile\<close> fails, the pointer it returns, which is assigned to
  \<^verbatim>\<open>d.code\<close>, is \<^verbatim>\<open>nil\<close>. The final block only writes to the logger and
  returns \<^verbatim>\<open>nil\<close> on both of its paths.\<close>

definition compileDrop :: "('cfg, 're, 'q, 'code) env \<Rightarrow> ('re, 'code) Drop \<Rightarrow> ('re, 'code) Drop \<times> error option" where
  "compileDrop E d0 =
     (let d1 = d0\<lparr>Condition := TrimSpace E (Condition d0)\<rparr> in
      case Parse E (Condition d1) of
        Inl err \<Rightarrow> (d1, Some err)
      | Inr q \<Rightarrow>
        (case Compile E q of
           Inl err \<Rightarrow> (d1\<lparr>code := None\<rparr>, Some err)
         | Inr c \<Rightarrow>
           (let d2 = d1\<lparr>code := Some c\<rparr> in
            case compileRegs (regexpCompile E) (TagNames d2) [] of
              (rs, Some err) \<Rightarrow> (d2\<lparr>tagNames := rs\<rparr>, Some err)
            | (rs, None) \<Rightarrow>
              (let d3 = d2\<lparr>tagNames := rs\<rparr> in
               case compileRegs (regexpCompile E) (Tags d3) [] of
                 (rs, Some err) \<Rightarrow> (d3\<lparr>tags := rs\<rparr>, Some err)
               | (rs, None) \<Rightarrow>
                 (let d4 = d3\<lparr>tags := rs\<rparr> in
                  case compileRegs (regexpCompile E) (ValueNames d4) [] of
                    (rs, Some err) \<Rightarrow> (d4\<lparr>valueNames := rs\<rparr>, Some err)
                  | (rs, None) \<Rightarrow>
                    (let d5 = d4\<lparr>valueNames := rs\<rparr> in
                     case compileRegs (regexpCompile E) (Values d5) [] of
                       (rs, Some err) \<Rightarrow> (d5\<lparr>values := rs\<rparr>, Some err)
                     | (rs, None) \<Rightarrow> (d5\<lparr>values := rs\<rparr>, None)))))))"

text \<open>\<^verbatim>\<open>Init\<close>: decode the configuration into the receiver, apply the options in order,
  then compile.\<close>

definition Init :: "('cfg, 're, 'q, 'code) env \<Rightarrow> 'cfg \<Rightarrow> (('re, 'code) Drop \<Rightarrow> ('re, 'code) Drop) list \<Rightarrow> ('re, 'code) Drop \<Rightarrow> ('re, 'code) Drop \<times> error option" where
  "Init E cfg opts d =
     (case DecodeConfig E cfg d of
        (d', Some err) \<Rightarrow> (d', Some err)
      | (d', None) \<Rightarrow> compileDrop E (foldl (\<lambda>r opt. opt r) d' opts))"

subsection \<open>Apply: the scan\<close>

text \<open>The loop over a list of compiled patterns, applied to one key or tag value: the
  first pattern that matches appends the event's index to \<^verbatim>\<open>toDrop\<close> and leaves the
  loop (\<^verbatim>\<open>break\<close>).\<close>

fun scanRegs :: "('re \<Rightarrow> string \<Rightarrow> bool) \<Rightarrow> 're list \<Rightarrow> string \<Rightarrow> int \<Rightarrow> int list \<Rightarrow> int list" where
  "scanRegs M [] s i toDrop = toDrop"
| "scanRegs M (re # res) s i toDrop =
     (if M re s then toDrop @ [i] else scanRegs M res s i toDrop)"

text \<open>The loop over \<^verbatim>\<open>d.values\<close>, applied to one value: a pattern is tried only when
  the value's dynamic type is string.\<close>

fun scanValRegs :: "('re \<Rightarrow> string \<Rightarrow> bool) \<Rightarrow> 're list \<Rightarrow> dynval \<Rightarrow> int \<Rightarrow> int list \<Rightarrow> int list" where
  "scanValRegs M [] v i toDrop = toDrop"
| "scanValRegs M (re # res) v i toDrop =
     (case v of
        StringV vs \<Rightarrow> (if M re vs then toDrop @ [i] else scanValRegs M res v i toDrop)
      | _ \<Rightarrow> scanValRegs M res v i toDrop)"

text \<open>The loop over the entries of \<^verbatim>\<open>e.Values\<close> (lines 247 to 264).\<close>

fun scanValues :: "('cfg, 're, 'q, 'code) env \<Rightarrow> ('re, 'code) Drop \<Rightarrow> (string \<times> dynval) list \<Rightarrow> int \<Rightarrow> int list \<Rightarrow> int list" where
  "scanValues E d [] i toDrop = toDrop"
| "scanValues E d ((k, v) # kvs) i toDrop =
     scanValues E d kvs i
       (scanValRegs (MatchString E) (values d) v i
          (scanRegs (MatchString E) (valueNames d) k i toDrop))"

text \<open>The loop over the entries of \<^verbatim>\<open>e.Tags\<close> (lines 265 to 280).\<close>

fun scanTags :: "('cfg, 're, 'q, 'code) env \<Rightarrow> ('re, 'code) Drop \<Rightarrow> (string \<times> string) list \<Rightarrow> int \<Rightarrow> int list \<Rightarrow> int list" where
  "scanTags E d [] i toDrop = toDrop"
| "scanTags E d ((k, v) # kvs) i toDrop =
     scanTags E d kvs i
       (scanRegs (MatchString E) (tags d) v i
          (scanRegs (MatchString E) (tagNames d) k i toDrop))"

text \<open>The body of the loop over the batch, for the element \<open>e\<close> at index \<open>i\<close>
  (lines 233 to 280). A \<^verbatim>\<open>continue\<close> ends the body with the list as it is.\<close>

definition scanEvent :: "('cfg, 're, 'q, 'code) env \<Rightarrow> ('re, 'code) Drop \<Rightarrow> int \<Rightarrow> EventMsg option \<Rightarrow> int list \<Rightarrow> int list" where
  "scanEvent E d i e toDrop =
     (case e of
        None \<Rightarrow> toDrop
      | Some ev \<Rightarrow>
        (if Condition d \<noteq> [] then
           (case CheckCondition E (code d) ev of
              Inl err \<Rightarrow> toDrop
            | Inr ok \<Rightarrow>
              (if ok then toDrop @ [i]
               else scanTags E d (evTags ev) i (scanValues E d (evValues ev) i toDrop)))
         else scanTags E d (evTags ev) i (scanValues E d (evValues ev) i toDrop)))"

text \<open>The loop over the batch, from index \<open>i\<close> on.\<close>

fun scanBatch :: "('cfg, 're, 'q, 'code) env \<Rightarrow> ('re, 'code) Drop \<Rightarrow> EventMsg option list \<Rightarrow> int \<Rightarrow> int list \<Rightarrow> int list" where
  "scanBatch E d [] i toDrop = toDrop"
| "scanBatch E d (e # es) i toDrop = scanBatch E d es (i + 1) (scanEvent E d i e toDrop)"

subsection \<open>shift\<close>

text \<open>The first loop of \<^verbatim>\<open>shift\<close>: swap the cells \<open>i\<close> and \<open>j\<close> while \<open>i < j\<close>,
  moving both inwards.\<close>

function reverseLoop :: "int list \<Rightarrow> int \<Rightarrow> int \<Rightarrow> int list" where
  "reverseLoop xs i j =
     (if i < j then reverseLoop (xs[nat i := xs ! nat j, nat j := xs ! nat i]) (i + 1) (j - 1)
      else xs)"
  by pat_completeness auto
termination
  by (relation "measure (\<lambda>(xs, i, j). nat (j - i))") auto

declare reverseLoop.simps [simp del]

text \<open>Go's \<^verbatim>\<open>copy(dst, src)\<close> where both slices are views of one array, \<open>dst\<close> of
  \<open>dlen\<close> cells from cell \<open>doff\<close> and \<open>src\<close> of \<open>slen\<close> cells from cell \<open>soff\<close>:
  the shorter length is the number of cells copied, and overlapping views are copied as
  if through a buffer.\<close>

definition copyWithin :: "'a list \<Rightarrow> nat \<Rightarrow> nat \<Rightarrow> nat \<Rightarrow> nat \<Rightarrow> 'a list" where
  "copyWithin a doff dlen soff slen =
     (let n = min dlen slen in take doff a @ take n (drop soff a) @ drop (doff + n) a)"

text \<open>The second loop of \<^verbatim>\<open>shift\<close>. The slice expression \<^verbatim>\<open>es[dropIndex:]\<close> panics
  when \<open>dropIndex\<close> is negative; an index not below the current length leaves the loop
  (\<^verbatim>\<open>break\<close>).\<close>

fun shiftLoop :: "'a slice \<Rightarrow> int list \<Rightarrow> panic + 'a slice" where
  "shiftLoop es [] = Inr es"
| "shiftLoop es (dropIndex # rest) =
     (if dropIndex < int (len es) then
        (if dropIndex < 0 then Inl SliceBoundsOutOfRange
         else
           (let k = nat dropIndex in
            shiftLoop
              \<lparr>array = copyWithin (array es) k (len es - k) (k + 1) (len es - (k + 1)),
               len = len es - 1\<rparr>
              rest))
      else Inr es)"

definition shift :: "'a slice \<Rightarrow> int list \<Rightarrow> panic + 'a slice" where
  "shift es dropIndexes =
     shiftLoop es (reverseLoop dropIndexes 0 (int (length dropIndexes) - 1))"

subsection \<open>Apply\<close>

definition Apply :: "('cfg, 're, 'q, 'code) env \<Rightarrow> ('re, 'code) Drop \<Rightarrow> EventMsg option list \<Rightarrow> panic + EventMsg option slice" where
  "Apply E d es =
     (let toDrop = scanBatch E d es 0 [] in
      if length toDrop = 0 then Inr (sliceOf es) else shift (sliceOf es) toDrop)"

subsection \<open>Notions used to state the properties\<close>

text \<open>A slice is valid when its length does not exceed the cells of its array.\<close>

definition validSlice :: "'a slice \<Rightarrow> bool" where
  "validSlice s = (len s \<le> length (array s))"

text \<open>Some pattern of the list matches the string.\<close>

definition anyMatch :: "('re \<Rightarrow> string \<Rightarrow> bool) \<Rightarrow> 're list \<Rightarrow> string \<Rightarrow> bool" where
  "anyMatch M res s = list_ex (\<lambda>re. M re s) res"

text \<open>Whether a value is matched by some value pattern: string values only.\<close>

definition valMatch :: "('re \<Rightarrow> string \<Rightarrow> bool) \<Rightarrow> 're list \<Rightarrow> dynval \<Rightarrow> bool" where
  "valMatch M res v = (case v of StringV vs \<Rightarrow> anyMatch M res vs | _ \<Rightarrow> False)"

text \<open>The four regular-expression criteria under OR: some value key matches a
  value-name pattern, some string value matches a value pattern, some tag key matches a
  tag-name pattern, or some tag value matches a tag pattern.\<close>

definition regexMatch :: "('cfg, 're, 'q, 'code) env \<Rightarrow> ('re, 'code) Drop \<Rightarrow> EventMsg \<Rightarrow> bool" where
  "regexMatch E d ev =
     (list_ex (\<lambda>(k, v). anyMatch (MatchString E) (valueNames d) k \<or> valMatch (MatchString E) (values d) v) (evValues ev)
      \<or> list_ex (\<lambda>(k, v). anyMatch (MatchString E) (tagNames d) k \<or> anyMatch (MatchString E) (tags d) v) (evTags ev))"

text \<open>The condition criterion: a condition is configured and evaluates to true on the event;
  and its failure: a condition is configured and its evaluation returns an error.\<close>

definition conditionHolds :: "('cfg, 're, 'q, 'code) env \<Rightarrow> ('re, 'code) Drop \<Rightarrow> EventMsg \<Rightarrow> bool" where
  "conditionHolds E d ev = (Condition d \<noteq> [] \<and> CheckCondition E (code d) ev = Inr True)"

definition conditionFails :: "('cfg, 're, 'q, 'code) env \<Rightarrow> ('re, 'code) Drop \<Rightarrow> EventMsg \<Rightarrow> bool" where
  "conditionFails E d ev = (Condition d \<noteq> [] \<and> isl (CheckCondition E (code d) ev))"

text \<open>An event matches a drop criterion: the five criteria under OR.\<close>

definition matchesCriterion :: "('cfg, 're, 'q, 'code) env \<Rightarrow> ('re, 'code) Drop \<Rightarrow> EventMsg \<Rightarrow> bool" where
  "matchesCriterion E d ev = (conditionHolds E d ev \<or> regexMatch E d ev)"

text \<open>An element of the batch is marked: it is present, the evaluation of its condition
  does not fail, and it matches a drop criterion.\<close>

definition marked :: "('cfg, 're, 'q, 'code) env \<Rightarrow> ('re, 'code) Drop \<Rightarrow> EventMsg option \<Rightarrow> bool" where
  "marked E d e =
     (case e of None \<Rightarrow> False | Some ev \<Rightarrow> \<not> conditionFails E d ev \<and> matchesCriterion E d ev)"

text \<open>The number of key, value and tag occurrences of an event that match: one for each
  value entry whose key matches a value-name pattern, one for each whose string value
  matches a value pattern, and likewise for the tag entries.\<close>

definition valueHits :: "('cfg, 're, 'q, 'code) env \<Rightarrow> ('re, 'code) Drop \<Rightarrow> string \<times> dynval \<Rightarrow> nat" where
  "valueHits E d kv =
     (if anyMatch (MatchString E) (valueNames d) (fst kv) then 1 else 0)
     + (if valMatch (MatchString E) (values d) (snd kv) then 1 else 0)"

definition tagHits :: "('cfg, 're, 'q, 'code) env \<Rightarrow> ('re, 'code) Drop \<Rightarrow> string \<times> string \<Rightarrow> nat" where
  "tagHits E d kv =
     (if anyMatch (MatchString E) (tagNames d) (fst kv) then 1 else 0)
     + (if anyMatch (MatchString E) (tags d) (snd kv) then 1 else 0)"

definition regexHits :: "('cfg, 're, 'q, 'code) env \<Rightarrow> ('re, 'code) Drop \<Rightarrow> EventMsg \<Rightarrow> nat" where
  "regexHits E d ev =
     sum_list (map (valueHits E d) (evValues ev)) + sum_list (map (tagHits E d) (evTags ev))"

text \<open>The number of times the scan records the index of an element: never for an absent
  element or one whose condition fails, once for one whose condition holds, and otherwise
  once for each matching occurrence.\<close>

definition markCount :: "('cfg, 're, 'q, 'code) env \<Rightarrow> ('re, 'code) Drop \<Rightarrow> EventMsg option \<Rightarrow> nat" where
  "markCount E d e =
     (case e of
        None \<Rightarrow> 0
      | Some ev \<Rightarrow>
        if conditionFails E d ev then 0
        else if conditionHolds E d ev then 1
        else regexHits E d ev)"

text \<open>The receiver as \<^verbatim>\<open>Init\<close> has it after decoding the configuration and applying
  the options, before anything is compiled.\<close>

definition configured :: "('cfg, 're, 'q, 'code) env \<Rightarrow> 'cfg \<Rightarrow> (('re, 'code) Drop \<Rightarrow> ('re, 'code) Drop) list \<Rightarrow> ('re, 'code) Drop \<Rightarrow> ('re, 'code) Drop" where
  "configured E cfg opts d = foldl (\<lambda>r opt. opt r) (fst (DecodeConfig E cfg d)) opts"

text \<open>Every regular-expression source of the four lists compiles; a query string parses
  and compiles; the compiled form of a list of sources.\<close>

definition allCompile :: "('cfg, 're, 'q, 'code) env \<Rightarrow> ('re, 'code) Drop \<Rightarrow> bool" where
  "allCompile E d =
     list_all (\<lambda>s. \<not> isl (regexpCompile E s)) (TagNames d @ Tags d @ ValueNames d @ Values d)"

definition queryCompiles :: "('cfg, 're, 'q, 'code) env \<Rightarrow> string \<Rightarrow> bool" where
  "queryCompiles E c = (case Parse E c of Inl err \<Rightarrow> False | Inr q \<Rightarrow> \<not> isl (Compile E q))"

definition compileList :: "('cfg, 're, 'q, 'code) env \<Rightarrow> string list \<Rightarrow> 're list" where
  "compileList E regs = map (\<lambda>s. projr (regexpCompile E s)) regs"

subsection \<open>A stand-in environment for the examples\<close>

text \<open>The examples need concrete library functions. The stand-ins below agree with the
  libraries on the inputs the examples use: a pattern made of letters, digits and
  underscores matches the strings that contain it; the pattern consisting of an opening
  parenthesis does not compile. A query names a tag: it is true on an event whose tag of
  that name has the value \<open>true\<close>, false when the tag has another value, and its
  evaluation fails on an event without that tag. The query consisting of a vertical bar
  does not parse.\<close>

fun contains :: "string \<Rightarrow> string \<Rightarrow> bool" where
  "contains p [] = (p = [])"
| "contains p (c # cs) = (take (length p) (c # cs) = p \<or> contains p cs)"

definition isSpace :: "char \<Rightarrow> bool" where
  "isSpace c = (c \<in> set [CHR '' '', CHR 0x09, CHR 0x0A, CHR 0x0B, CHR 0x0C, CHR 0x0D])"

definition demoTrim :: "string \<Rightarrow> string" where
  "demoTrim s = rev (dropWhile isSpace (rev (dropWhile isSpace s)))"

definition demoCheck :: "string option \<Rightarrow> EventMsg \<Rightarrow> error + bool" where
  "demoCheck c ev =
     (case c of
        None \<Rightarrow> Inl (Error ''no query'')
      | Some name \<Rightarrow>
        (case map_of (evTags ev) name of
           None \<Rightarrow> Inl (Error ''condition check failed'')
         | Some v \<Rightarrow> Inr (v = ''true'')))"

definition demoDecode :: "(string, string) Drop \<Rightarrow> (string, string) Drop \<Rightarrow> (string, string) Drop \<times> error option" where
  "demoDecode cfg d =
     (d\<lparr>Condition := Condition cfg, TagNames := TagNames cfg, ValueNames := ValueNames cfg,
        Tags := Tags cfg, Values := Values cfg, Debug := Debug cfg\<rparr>, None)"

definition demoEnv :: "((string, string) Drop, string, string, string) env" where
  "demoEnv =
     \<lparr>DecodeConfig = demoDecode,
      TrimSpace = demoTrim,
      Parse = (\<lambda>s. if s = ''|'' then Inl (Error ''unexpected token'') else Inr s),
      Compile = (\<lambda>q. Inr q),
      regexpCompile = (\<lambda>s. if s = ''('' then Inl (Error ''missing closing )'') else Inr s),
      MatchString = contains,
      CheckCondition = demoCheck\<rparr>"

text \<open>The same environment with a query parser that rejects the empty query.\<close>

definition strictEnv :: "((string, string) Drop, string, string, string) env" where
  "strictEnv =
     demoEnv\<lparr>Parse := (\<lambda>s. if s = [] \<or> s = ''|'' then Inl (Error ''unexpected token'') else Inr s)\<rparr>"

text \<open>An empty receiver, and a configuration with the given condition and pattern lists
  (tag-names, value-names, tags, values).\<close>

definition emptyDrop :: "(string, string) Drop" where
  "emptyDrop =
     \<lparr>Condition = [], TagNames = [], ValueNames = [], Tags = [], Values = [], Debug = False,
      tagNames = [], valueNames = [], tags = [], values = [], code = None\<rparr>"

definition config :: "string \<Rightarrow> string list \<Rightarrow> string list \<Rightarrow> string list \<Rightarrow> string list \<Rightarrow> (string, string) Drop" where
  "config c tn vn ts vs =
     emptyDrop\<lparr>Condition := c, TagNames := tn, ValueNames := vn, Tags := ts, Values := vs\<rparr>"

text \<open>The receiver after a successful \<^verbatim>\<open>Init\<close> in the stand-in environment.\<close>

definition compiled :: "string \<Rightarrow> string list \<Rightarrow> string list \<Rightarrow> string list \<Rightarrow> string list \<Rightarrow> (string, string) Drop" where
  "compiled c tn vn ts vs = fst (Init demoEnv (config c tn vn ts vs) [] emptyDrop)"

definition event :: "(string \<times> string) list \<Rightarrow> (string \<times> dynval) list \<Rightarrow> EventMsg option" where
  "event ts vs = Some \<lparr>evTags = ts, evValues = vs\<rparr>"

text \<open>The events and receivers of the examples: an event with the single tag
  \<open>site\<close>, one with the single tag \<open>host\<close>, events with one and with two tags
  whose names start with \<open>debug_\<close>; a receiver that drops on the tag-name pattern
  \<open>debug_\<close>, and one that has the condition \<open>drop\<close> and the tag-name pattern
  \<open>site\<close>.\<close>

definition siteMsg :: EventMsg where
  "siteMsg = \<lparr>evTags = [(''site'', ''lab'')], evValues = []\<rparr>"

definition hostMsg :: EventMsg where
  "hostMsg = \<lparr>evTags = [(''host'', ''r1'')], evValues = []\<rparr>"

definition debugMsg :: EventMsg where
  "debugMsg = \<lparr>evTags = [(''debug_level'', ''3'')], evValues = []\<rparr>"

definition debugMsg2 :: EventMsg where
  "debugMsg2 = \<lparr>evTags = [(''debug_level'', ''3''), (''debug_mode'', ''on'')], evValues = []\<rparr>"

definition debugDrop :: "(string, string) Drop" where
  "debugDrop = compiled [] [''debug_''] [] [] []"

definition condDrop :: "(string, string) Drop" where
  "condDrop = compiled ''drop'' [''site''] [] [] []"

section \<open>Properties\<close>

subsection \<open>The reversal and the removal pass of shift\<close>

lemma reverseLoop_length: "length (reverseLoop xs i j) = length xs"
proof (induction xs i j rule: reverseLoop.induct)
  case (1 xs i j)
  show ?case using 1 by (subst reverseLoop.simps) auto
qed

lemma reverseLoop_nth:
  "0 \<le> i \<Longrightarrow> j < int (length xs) \<Longrightarrow> k < length xs \<Longrightarrow>
   reverseLoop xs i j ! k = (if i \<le> int k \<and> int k \<le> j then xs ! nat (i + j - int k) else xs ! k)"
proof (induction xs i j arbitrary: k rule: reverseLoop.induct)
  case (1 xs i j)
  show ?case
  proof (cases "i < j")
    case False
    then have "reverseLoop xs i j = xs" by (subst reverseLoop.simps) simp
    moreover have "i \<le> int k \<and> int k \<le> j \<Longrightarrow> nat (i + j - int k) = k" using False by auto
    ultimately show ?thesis by auto
  next
    case True
    let ?ys = "xs[nat i := xs ! nat j, nat j := xs ! nat i]"
    have r: "reverseLoop xs i j = reverseLoop ?ys (i + 1) (j - 1)" using True by (subst reverseLoop.simps) simp
    have ih: "reverseLoop ?ys (i + 1) (j - 1) ! k =
      (if i + 1 \<le> int k \<and> int k \<le> j - 1 then ?ys ! nat (i + 1 + (j - 1) - int k) else ?ys ! k)"
      using "1.IH"[OF True, of k] "1.prems" by simp
    have ne: "nat i \<noteq> nat j" "nat i < length xs" "nat j < length xs" using True "1.prems" by auto
    show ?thesis
    proof (cases "i + 1 \<le> int k \<and> int k \<le> j - 1")
      case T2: True
      then have a: "nat (i + 1 + (j - 1) - int k) \<noteq> nat i" "nat (i + 1 + (j - 1) - int k) \<noteq> nat j" 
        using "1.prems" by auto
      have b: "i + 1 + (j - 1) - int k = i + j - int k" by simp
      show ?thesis using T2 a ne unfolding r ih b by (simp add: nth_list_update)
    next
      case F2: False
      consider "int k = i" | "int k = j" | "int k < i" | "int k > j" using F2 by linarith
      then show ?thesis
      proof cases
        case 1
        then have "k = nat i" by simp
        then show ?thesis using F2 ne True "1.prems" unfolding r ih by (simp add: nth_list_update)
      next
        case 2
        then have "k = nat j" by simp
        then show ?thesis using F2 ne True "1.prems" unfolding r ih by (simp add: nth_list_update)
      next
        case 3
        then have "k \<noteq> nat i" "k \<noteq> nat j" using True "1.prems" by auto
        then show ?thesis using 3 F2 ne True "1.prems" unfolding r ih by (simp add: nth_list_update)
      next
        case 4
        then have "k \<noteq> nat i" "k \<noteq> nat j" using True "1.prems" by auto
        then show ?thesis using 4 F2 ne True "1.prems" unfolding r ih by (simp add: nth_list_update)
      qed
    qed
  qed
qed

lemma reverseLoop_rev: "reverseLoop xs 0 (int (length xs) - 1) = rev xs"
proof (rule nth_equalityI)
  show "length (reverseLoop xs 0 (int (length xs) - 1)) = length (rev xs)"
    by (simp add: reverseLoop_length)
next
  fix k assume "k < length (reverseLoop xs 0 (int (length xs) - 1))"
  then have k: "k < length xs" by (simp add: reverseLoop_length)
  have "nat (int (length xs) - 1 - int k) = length xs - Suc k" using k by auto
  then show "reverseLoop xs 0 (int (length xs) - 1) ! k = rev xs ! k"
    using k reverseLoop_nth[of 0 "int (length xs) - 1" xs k] by (simp add: rev_nth)
qed



lemma shiftStep:
  assumes "validSlice s" "k < len s"
  defines "s' \<equiv> \<lparr>array = copyWithin (array s) k (len s - k) (k + 1) (len s - (k + 1)), len = len s - 1\<rparr>"
  shows "validSlice s'" "elems s' = take k (elems s) @ drop (Suc k) (elems s)" "len s' = len s - 1"
    "length (array s') = length (array s)"
proof -
  have m: "min (len s - k) (len s - (k + 1)) = len s - Suc k" by simp
  have l: "len s \<le> length (array s)" using assms(1) by (simp add: validSlice_def)
  show "length (array s') = length (array s)"
    using l assms(2) by (simp add: s'_def copyWithin_def m)
  then show "validSlice s'" using l by (simp add: validSlice_def s'_def)
  show "len s' = len s - 1" by (simp add: s'_def)
  define A where "A = take k (array s) @ take (len s - Suc k) (drop (Suc k) (array s))"
  have lenA: "length A = len s - 1" using l assms(2) by (simp add: A_def)
  have arr: "array s' = A @ drop (k + (len s - Suc k)) (array s)"
    by (simp add: s'_def copyWithin_def m A_def Let_def)
  have tk: "take (len s - 1) (A @ drop (k + (len s - Suc k)) (array s)) = A"
    using lenA by simp
  have rhs: "take k (elems s) @ drop (Suc k) (elems s) = A"
    using l assms(2) by (simp add: elems_def A_def drop_take min_def)
  have "elems s' = take (len s - 1) (array s')" by (simp add: elems_def s'_def)
  also have "\<dots> = A" unfolding arr by (rule tk)
  finally show "elems s' = take k (elems s) @ drop (Suc k) (elems s)"
    unfolding rhs .
qed

lemma nths_cong_below:
  "(\<And>i. i < length xs \<Longrightarrow> (i \<in> A) = (i \<in> B)) \<Longrightarrow> nths xs A = nths xs B"
  unfolding nths_def
  by (rule arg_cong[where f="map fst"], rule filter_cong) (auto simp: set_zip)

lemma nths_remove:
  assumes "k < length xs" "\<And>j. j \<in> S \<Longrightarrow> j < k"
  shows "nths (take k xs @ drop (Suc k) xs) (- S) = nths xs (- insert k S)"
proof -
  have a: "nths (take k xs) (- S) = nths (take k xs) (- insert k S)"
    by (rule nths_cong_below) (use assms in auto)
  have b: "{j. j + k \<in> - S} = UNIV" using assms(2) by fastforce
  have c: "{j. Suc j + k \<in> - insert k S} = UNIV" using assms(2) by fastforce
  have d: "\<not> (0 + k \<in> - insert k S)" by simp
  have "nths xs (- insert k S) = nths (take k xs @ xs ! k # drop (Suc k) xs) (- insert k S)"
    using assms(1) by (simp add: id_take_nth_drop[symmetric])
  also have "\<dots> = nths (take k xs) (- insert k S) @ drop (Suc k) xs"
    using assms(1) c by (simp add: nths_append nths_Cons min_def nths_all)
  finally show ?thesis using assms(1) a b by (simp add: nths_append min_def nths_all)
qed


lemma shiftLoop_Cons_in:
  "0 \<le> k \<Longrightarrow> k < int (len s) \<Longrightarrow>
   shiftLoop s (k # ks) =
     shiftLoop \<lparr>array = copyWithin (array s) (nat k) (len s - nat k) (nat k + 1) (len s - (nat k + 1)),
                len = len s - 1\<rparr> ks"
  by (simp add: Let_def)

lemma shiftLoop_Cons_out: "int (len s) \<le> k \<Longrightarrow> shiftLoop s (k # ks) = Inr s"
  by simp

lemma shiftLoop_Cons_neg: "k < 0 \<Longrightarrow> shiftLoop s (k # ks) = Inl SliceBoundsOutOfRange"
  by simp

lemma subseq_remove: "subseq (take k xs @ drop (Suc k) xs) xs"
proof -
  have "drop k xs = take 1 (drop k xs) @ drop (Suc k) xs"
    by (metis append_take_drop_id drop_drop plus_1_eq_Suc)
  then have "subseq (drop (Suc k) xs) (drop k xs)"
    by (metis subseq_drop_many subseq_order.order_refl)
  then have "subseq (take k xs @ drop (Suc k) xs) (take k xs @ drop k xs)"
    by (simp only: subseq_append')
  then show ?thesis by simp
qed

lemma shiftLoop_valid:
  "validSlice s \<Longrightarrow> shiftLoop s ks = Inr r \<Longrightarrow>
   validSlice r \<and> subseq (elems r) (elems s) \<and> len r \<le> len s \<and> length (array r) = length (array s)"
proof (induction ks arbitrary: s)
  case Nil
  then show ?case by simp
next
  case (Cons k ks)
  show ?case
  proof (cases "k < int (len s)")
    case False
    then show ?thesis using Cons.prems by simp
  next
    case True
    then have nn: "0 \<le> k" using Cons.prems(2) by (cases "k < 0") simp_all
    let ?s = "\<lparr>array = copyWithin (array s) (nat k) (len s - nat k) (nat k + 1) (len s - (nat k + 1)),
                len = len s - 1\<rparr>"
    have kl: "nat k < len s" using True nn by simp
    have r: "shiftLoop ?s ks = Inr r" using Cons.prems(2) shiftLoop_Cons_in[OF nn True] by simp
    note st = shiftStep[OF Cons.prems(1) kl]
    have ih: "validSlice r \<and> subseq (elems r) (elems ?s) \<and> len r \<le> len ?s \<and> length (array r) = length (array ?s)"
      using Cons.IH[OF st(1) r] .
    have "subseq (elems ?s) (elems s)" unfolding st(2) by (rule subseq_remove)
    then show ?thesis using ih st(3,4) by (auto intro: subseq_order.order_trans)
  qed
qed

lemma shiftLoop_total: "(\<And>k. k \<in> set ks \<Longrightarrow> 0 \<le> k) \<Longrightarrow> \<exists>r. shiftLoop s ks = Inr r"
proof (induction ks arbitrary: s)
  case Nil
  then show ?case by simp
next
  case (Cons k ks)
  have nn: "0 \<le> k" using Cons.prems by simp
  show ?case
  proof (cases "k < int (len s)")
    case False
    then show ?thesis by simp
  next
    case True
    show ?thesis unfolding shiftLoop_Cons_in[OF nn True] by (rule Cons.IH) (use Cons.prems in simp)
  qed
qed

lemma shiftLoop_sorted:
  "validSlice s \<Longrightarrow> sorted_wrt (>) ks \<Longrightarrow> (\<And>k. k \<in> set ks \<Longrightarrow> 0 \<le> k \<and> k < int (len s)) \<Longrightarrow>
   \<exists>r. shiftLoop s ks = Inr r \<and> elems r = nths (elems s) (- (nat ` set ks)) \<and> len r = len s - length ks"
proof (induction ks arbitrary: s)
  case Nil
  then show ?case by (simp add: nths_all)
next
  case (Cons k ks)
  have nn: "0 \<le> k" and lt: "k < int (len s)" using Cons.prems(3) by simp_all
  let ?s = "\<lparr>array = copyWithin (array s) (nat k) (len s - nat k) (nat k + 1) (len s - (nat k + 1)),
              len = len s - 1\<rparr>"
  have kl: "nat k < len s" using lt nn by simp
  note st = shiftStep[OF Cons.prems(1) kl]
  have below: "\<And>j. j \<in> set ks \<Longrightarrow> 0 \<le> j \<and> j < k" using Cons.prems(2,3) by auto
  have rng: "\<And>j. j \<in> set ks \<Longrightarrow> 0 \<le> j \<and> j < int (len ?s)" using below lt by fastforce
  from Cons.IH[OF st(1) _ rng] Cons.prems(2)
  obtain r where r: "shiftLoop ?s ks = Inr r" "elems r = nths (elems ?s) (- (nat ` set ks))"
    "len r = len ?s - length ks" by auto
  have le: "length (elems s) = len s" using Cons.prems(1) by (simp add: elems_def validSlice_def)
  have "nths (take (nat k) (elems s) @ drop (Suc (nat k)) (elems s)) (- (nat ` set ks))
        = nths (elems s) (- insert (nat k) (nat ` set ks))"
  proof (rule nths_remove)
    show "nat k < length (elems s)" using kl le by simp
  next
    fix j assume "j \<in> nat ` set ks"
    then obtain x where x: "x \<in> set ks" "j = nat x" by auto
    show "j < nat k" using below[OF x(1)] x(2) by linarith
  qed
  then have "elems r = nths (elems s) (- (nat ` set (k # ks)))" using r(2) st(2) by simp
  then show ?case using r(1,3) shiftLoop_Cons_in[OF nn lt, of ks] by simp
qed

lemma shiftLoop_stop:
  "shiftLoop s ks = Inr r \<Longrightarrow> int (len r) \<le> k \<Longrightarrow> shiftLoop s (ks @ k # rest) = Inr r"
proof (induction ks arbitrary: s)
  case Nil
  then show ?case by simp
next
  case (Cons j js)
  show ?case
  proof (cases "j < int (len s)")
    case False
    then show ?thesis using Cons.prems by simp
  next
    case True
    then have nn: "0 \<le> j" using Cons.prems(1) by (cases "j < 0") simp_all
    show ?thesis using Cons.prems Cons.IH shiftLoop_Cons_in[OF nn True] by simp
  qed
qed

lemma shift_rev: "shift s ks = shiftLoop s (rev ks)"
  by (simp add: shift_def reverseLoop_rev)

subsection \<open>The scan\<close>

lemma scanRegs_eq: "scanRegs M res s i td = td @ (if anyMatch M res s then [i] else [])"
  by (induction res) (simp_all add: anyMatch_def)

lemma scanValRegs_eq: "scanValRegs M res v i td = td @ (if valMatch M res v then [i] else [])"
  by (induction res) (simp_all add: valMatch_def anyMatch_def split: dynval.splits)

lemma scanValues_eq:
  "scanValues E d kvs i td = td @ replicate (sum_list (map (valueHits E d) kvs)) i"
proof (induction kvs arbitrary: td)
  case Nil
  then show ?case by simp
next
  case (Cons kv kvs)
  obtain k v where kv: "kv = (k, v)" by (cases kv)
  show ?case unfolding kv
    by (simp add: Cons.IH scanRegs_eq scanValRegs_eq valueHits_def replicate_add)
qed

lemma scanTags_eq:
  "scanTags E d kvs i td = td @ replicate (sum_list (map (tagHits E d) kvs)) i"
proof (induction kvs arbitrary: td)
  case Nil
  then show ?case by simp
next
  case (Cons kv kvs)
  obtain k v where kv: "kv = (k, v)" by (cases kv)
  show ?case unfolding kv
    by (simp add: Cons.IH scanRegs_eq tagHits_def replicate_add)
qed

lemma scanEvent_eq: "scanEvent E d i e td = td @ replicate (markCount E d e) i"
proof (cases e)
  case None
  then show ?thesis by (simp add: scanEvent_def markCount_def)
next
  case (Some ev)
  show ?thesis
  proof (cases "CheckCondition E (code d) ev")
    case (Inl err)
    then show ?thesis using Some
      by (simp add: scanEvent_def markCount_def conditionFails_def conditionHolds_def
          scanTags_eq scanValues_eq regexHits_def replicate_add)
  next
    case (Inr ok)
    then show ?thesis using Some
      by (simp add: scanEvent_def markCount_def conditionFails_def conditionHolds_def
          scanTags_eq scanValues_eq regexHits_def replicate_add)
  qed
qed

lemma scanBatch_acc: "scanBatch E d es i td = td @ scanBatch E d es i []"
proof (induction es arbitrary: i td)
  case Nil
  then show ?case by simp
next
  case (Cons e es)
  show ?case using Cons.IH[of "i + 1" "scanEvent E d i e td"] Cons.IH[of "i + 1" "scanEvent E d i e []"]
    by (simp add: scanEvent_eq)
qed

lemma scanBatch_append:
  "scanBatch E d (xs @ ys) i td = scanBatch E d ys (i + int (length xs)) (scanBatch E d xs i td)"
  by (induction xs arbitrary: i td) (simp_all add: add.assoc)

lemma scanBatch_snoc:
  "scanBatch E d (es @ [e]) 0 [] = scanBatch E d es 0 [] @ replicate (markCount E d e) (int (length es))"
  by (simp add: scanBatch_append scanEvent_eq)

lemma regexHits_pos: "(0 < regexHits E d ev) = regexMatch E d ev"
proof -
  have v: "\<And>kvs. (0 < sum_list (map (valueHits E d) kvs)) =
      list_ex (\<lambda>(k, v). anyMatch (MatchString E) (valueNames d) k \<or> valMatch (MatchString E) (values d) v) kvs"
    subgoal for kvs by (induction kvs) (auto simp: valueHits_def)
    done
  have t: "\<And>kvs. (0 < sum_list (map (tagHits E d) kvs)) =
      list_ex (\<lambda>(k, v). anyMatch (MatchString E) (tagNames d) k \<or> anyMatch (MatchString E) (tags d) v) kvs"
    subgoal for kvs by (induction kvs) (auto simp: tagHits_def)
    done
  show ?thesis using v[of "evValues ev"] t[of "evTags ev"] by (auto simp: regexHits_def regexMatch_def)
qed

lemma markCount_pos: "(0 < markCount E d e) = marked E d e"
  by (cases e) (auto simp: markCount_def marked_def matchesCriterion_def regexHits_pos conditionFails_def conditionHolds_def)

lemma scanBatch_set:
  "set (scanBatch E d es 0 []) = int ` {j. j < length es \<and> marked E d (es ! j)}"
proof (induction es rule: rev_induct)
  case Nil
  then show ?case by simp
next
  case (snoc e es)
  have a: "{j. j < length (es @ [e]) \<and> marked E d ((es @ [e]) ! j)}
      = {j. j < length es \<and> marked E d (es ! j)} \<union> (if marked E d e then {length es} else {})"
  proof (rule set_eqI)
    fix j
    show "(j \<in> {j. j < length (es @ [e]) \<and> marked E d ((es @ [e]) ! j)})
      = (j \<in> {j. j < length es \<and> marked E d (es ! j)} \<union> (if marked E d e then {length es} else {}))"
      by (cases "j < length es"; cases "j = length es") (simp_all add: nth_append)
  qed
  have b: "set (replicate (markCount E d e) (int (length es))) = (if marked E d e then {int (length es)} else {})"
    using markCount_pos[of E d e] by (cases "markCount E d e = 0") (simp_all add: set_replicate_conv_if)
  show ?case unfolding scanBatch_snoc set_append snoc.IH a b by (simp add: image_Un)
qed

lemma scanBatch_range:
  "k \<in> set (scanBatch E d es 0 []) \<Longrightarrow> 0 \<le> k \<and> k < int (length es) \<and> marked E d (es ! nat k)"
  unfolding scanBatch_set by auto

lemma scanBatch_sorted: "sorted (scanBatch E d es 0 [])"
proof (induction es rule: rev_induct)
  case Nil
  then show ?case by simp
next
  case (snoc e es)
  have "\<And>k. k \<in> set (scanBatch E d es 0 []) \<Longrightarrow> k \<le> int (length es)"
    using scanBatch_range[of _ E d es] by fastforce
  then show ?case using snoc.IH by (simp add: scanBatch_snoc sorted_append)
qed

lemma scanBatch_strict:
  "(\<And>e. e \<in> set es \<Longrightarrow> markCount E d e \<le> 1) \<Longrightarrow>
   sorted_wrt (<) (scanBatch E d es 0 []) \<and> length (scanBatch E d es 0 []) = length (filter (marked E d) es)"
proof (induction es rule: rev_induct)
  case Nil
  then show ?case by simp
next
  case (snoc e es)
  have ih: "sorted_wrt (<) (scanBatch E d es 0 []) \<and> length (scanBatch E d es 0 []) = length (filter (marked E d) es)"
    using snoc by simp
  have c: "markCount E d e = (if marked E d e then 1 else 0)"
    using snoc.prems[of e] markCount_pos[of E d e] by auto
  have "\<And>k. k \<in> set (scanBatch E d es 0 []) \<Longrightarrow> k < int (length es)"
    using scanBatch_range[of _ E d es] by fastforce
  then show ?case using ih by (simp add: scanBatch_snoc c sorted_wrt_append)
qed

lemma Apply_shiftLoop:
  "Apply E d es = shiftLoop (sliceOf es) (rev (scanBatch E d es 0 []))"
  by (simp add: Apply_def shift_rev Let_def)

lemma validSlice_sliceOf: "validSlice (sliceOf xs)" "elems (sliceOf xs) = xs" "len (sliceOf xs) = length xs"
  by (simp_all add: validSlice_def sliceOf_def elems_def)

lemma Apply_total:
  "\<exists>r. Apply E d es = Inr r \<and> validSlice r \<and> subseq (elems r) es \<and> len r \<le> length es"
proof -
  have "\<exists>r. shiftLoop (sliceOf es) (rev (scanBatch E d es 0 [])) = Inr r"
    by (rule shiftLoop_total) (use scanBatch_range[of _ E d es] in simp)
  then obtain r where r: "Apply E d es = Inr r" by (auto simp: Apply_shiftLoop)
  then show ?thesis using shiftLoop_valid[OF validSlice_sliceOf(1), of es "rev (scanBatch E d es 0 [])" r]
    by (simp add: Apply_shiftLoop validSlice_sliceOf)
qed

subsection \<open>Init\<close>

lemma compileRegs_ok:
  "list_all (\<lambda>s. \<not> isl (C s)) regs \<Longrightarrow> compileRegs C regs acc = (acc @ map (\<lambda>s. projr (C s)) regs, None)"
  by (induction regs arbitrary: acc) (auto split: sum.splits)

lemma compileRegs_fail:
  "\<not> list_all (\<lambda>s. \<not> isl (C s)) regs \<Longrightarrow> \<exists>rs err. compileRegs C regs acc = (rs, Some err)"
  by (induction regs arbitrary: acc) (auto split: sum.splits)

lemma compileRegs_None:
  "(snd (compileRegs C regs acc) = None) = list_all (\<lambda>s. \<not> isl (C s)) regs"
  using compileRegs_ok[of C regs acc] compileRegs_fail[of C regs acc] by (cases "list_all (\<lambda>s. \<not> isl (C s)) regs") auto

lemma compileDrop_None:
  "(snd (compileDrop E d0) = None) = (queryCompiles E (TrimSpace E (Condition d0)) \<and> allCompile E d0)"
proof (cases "Parse E (TrimSpace E (Condition d0))")
  case (Inl err)
  then show ?thesis by (simp add: compileDrop_def queryCompiles_def)
next
  case (Inr q)
  note p = Inr
  show ?thesis
  proof (cases "Compile E q")
    case (Inl err)
    then show ?thesis using p by (simp add: compileDrop_def queryCompiles_def)
  next
    case (Inr c)
    let ?C = "regexpCompile E"
    let ?ok = "\<lambda>regs. list_all (\<lambda>s. \<not> isl (?C s)) regs"
    have qc: "queryCompiles E (TrimSpace E (Condition d0))" using p Inr by (simp add: queryCompiles_def)
    have ac: "allCompile E d0 = (?ok (TagNames d0) \<and> ?ok (Tags d0) \<and> ?ok (ValueNames d0) \<and> ?ok (Values d0))"
      by (simp add: allCompile_def)
    show ?thesis
    proof (cases "?ok (TagNames d0)")
      case False
      then obtain rs err where "compileRegs ?C (TagNames d0) [] = (rs, Some err)"
        using compileRegs_fail by blast
      then show ?thesis using p Inr False by (simp add: compileDrop_def ac Let_def)
    next
      case t1: True
      show ?thesis
      proof (cases "?ok (Tags d0)")
        case False
        then obtain rs err where "compileRegs ?C (Tags d0) [] = (rs, Some err)"
          using compileRegs_fail by blast
        then show ?thesis using p Inr False t1 by (simp add: compileDrop_def ac Let_def compileRegs_ok)
      next
        case t2: True
        show ?thesis
        proof (cases "?ok (ValueNames d0)")
          case False
          then obtain rs err where "compileRegs ?C (ValueNames d0) [] = (rs, Some err)"
            using compileRegs_fail by blast
          then show ?thesis using p Inr False t1 t2 by (simp add: compileDrop_def ac Let_def compileRegs_ok)
        next
          case t3: True
          show ?thesis
          proof (cases "?ok (Values d0)")
            case False
            then obtain rs err where "compileRegs ?C (Values d0) [] = (rs, Some err)"
              using compileRegs_fail by blast
            then show ?thesis using p Inr False t1 t2 t3 by (simp add: compileDrop_def ac Let_def compileRegs_ok)
          next
            case t4: True
            show ?thesis using p Inr t1 t2 t3 t4 qc by (simp add: compileDrop_def ac Let_def compileRegs_ok)
          qed
        qed
      qed
    qed
  qed
qed

lemma compileDrop_ok:
  assumes "queryCompiles E (TrimSpace E (Condition d0))" "allCompile E d0"
  shows "compileDrop E d0 =
    (d0\<lparr>Condition := TrimSpace E (Condition d0),
        tagNames := compileList E (TagNames d0),
        valueNames := compileList E (ValueNames d0),
        tags := compileList E (Tags d0),
        values := compileList E (Values d0),
        code := Some (projr (Compile E (projr (Parse E (TrimSpace E (Condition d0))))))\<rparr>, None)"
proof -
  obtain q where q: "Parse E (TrimSpace E (Condition d0)) = Inr q"
    using assms(1) by (auto simp: queryCompiles_def split: sum.splits)
  obtain c where c: "Compile E q = Inr c"
    using assms(1) q by (cases "Compile E q") (auto simp: queryCompiles_def)
  show ?thesis using assms(2) q c
    by (simp add: compileDrop_def allCompile_def compileList_def Let_def compileRegs_ok)
qed

lemma compileDrop_Parse_fail:
  "Parse E (TrimSpace E (Condition d0)) = Inl err \<Longrightarrow> snd (compileDrop E d0) = Some err"
  by (simp add: compileDrop_def)

lemma Init_decode:
  "Init E cfg opts d =
     (if snd (DecodeConfig E cfg d) = None
      then compileDrop E (foldl (\<lambda>r opt. opt r) (fst (DecodeConfig E cfg d)) opts)
      else DecodeConfig E cfg d)"
  by (cases "DecodeConfig E cfg d") (auto simp: Init_def)

subsection \<open>Further facts about subsequences and marks\<close>

lemma subseq_count_list: "subseq xs ys \<Longrightarrow> count_list xs a \<le> count_list ys a"
  by (induction rule: list_emb.induct) auto

lemma subseq_facts:
  "subseq xs ys \<Longrightarrow> set xs \<subseteq> set ys \<and> (\<forall>a. count_list xs a \<le> count_list ys a) \<and> length xs \<le> length ys"
  using subseq_count_list[of xs ys] by (auto dest: list_emb_set list_emb_length)

lemma markCount_None: "markCount E d None = 0"
  by (simp add: markCount_def)

lemma markCount_fails: "conditionFails E d ev \<Longrightarrow> markCount E d (Some ev) = 0"
  by (simp add: markCount_def)

lemma not_marked_scan:
  assumes "\<And>e. e \<in> set es \<Longrightarrow> \<not> marked E d e"
  shows "scanBatch E d es 0 [] = []"
proof -
  have "set (scanBatch E d es 0 []) = {}" using assms unfolding scanBatch_set by auto
  then show ?thesis by simp
qed

lemma scanEvent_None: "scanEvent E d i None toDrop = toDrop"
  by (simp add: scanEvent_def)

lemma compileRegs_first_failure:
  "list_all (\<lambda>s. \<not> isl (C s)) pre \<Longrightarrow> C s = Inl err \<Longrightarrow>
   compileRegs C (pre @ s # post) acc = (acc @ map (\<lambda>s. projr (C s)) pre, Some err)"
  by (induction pre arbitrary: acc) (auto split: sum.splits)

section \<open>The claims\<close>

subsection \<open>C1: the surviving elements\<close>

text \<open>
  Claim C1, as amended. The scan marks an element when it is present, the evaluation of
  its condition does not fail, and its condition holds or one of the four regular-expression
  criteria matches it (\<open>marked\<close>). For every batch in which no element is marked more
  than once, \<^verbatim>\<open>Apply\<close> returns exactly the elements that are not marked, in the
  input's relative order, and the length of the result is the length of the input minus
  the number of marked elements. Batches with an element marked more than once are the
  subject of C3.
\<close>

theorem Apply_drops_marked:
  assumes "\<And>e. e \<in> set es \<Longrightarrow> markCount E d e \<le> 1"
  shows "\<exists>r. Apply E d es = Inr r
           \<and> elems r = filter (\<lambda>e. \<not> marked E d e) es
           \<and> len r = length es - length (filter (marked E d) es)"
proof -
  let ?T = "scanBatch E d es 0 []"
  have st: "sorted_wrt (<) ?T" "length ?T = length (filter (marked E d) es)"
    using scanBatch_strict[of es E d] assms by auto
  have sr: "sorted_wrt (>) (rev ?T)" using st(1) by (simp add: sorted_wrt_rev)
  have rng: "\<And>k. k \<in> set (rev ?T) \<Longrightarrow> 0 \<le> k \<and> k < int (len (sliceOf es))"
    using scanBatch_range[of _ E d es] by (simp add: validSlice_sliceOf)
  have "\<exists>r. shiftLoop (sliceOf es) (rev ?T) = Inr r
        \<and> elems r = nths (elems (sliceOf es)) (- (nat ` set (rev ?T)))
        \<and> len r = len (sliceOf es) - length (rev ?T)"
    by (rule shiftLoop_sorted[OF validSlice_sliceOf(1) sr rng])
  then obtain r where r: "shiftLoop (sliceOf es) (rev ?T) = Inr r"
    "elems r = nths es (- (nat ` set ?T))"
    "len r = length es - length ?T"
    by (auto simp: validSlice_sliceOf)
  have "nths es (- (nat ` set ?T)) = nths es {i. i < length es \<and> \<not> marked E d (es ! i)}"
  proof (rule nths_cong_below)
    fix i assume "i < length es"
    then show "(i \<in> - nat ` set ?T) = (i \<in> {i. i < length es \<and> \<not> marked E d (es ! i)})"
      unfolding scanBatch_set by (simp add: image_image)
  qed
  then have "elems r = filter (\<lambda>e. \<not> marked E d e) es"
    using r(2) by (simp add: filter_eq_nths)
  then show ?thesis using r(1,3) st(2) by (simp add: Apply_shiftLoop validSlice_sliceOf)
qed

text \<open>The batch \<open>[E0, E1, E2, E3]\<close> in which \<open>E1\<close> and \<open>E3\<close> are each marked once:
  the result is \<open>[E0, E2]\<close>.\<close>

theorem Apply_drops_marked_witness:
  "list_all (\<lambda>e. markCount demoEnv debugDrop e \<le> 1) [Some siteMsg, Some debugMsg, Some hostMsg, event [(''debug_mode'', ''on'')] []]
   \<and> (\<exists>r. Apply demoEnv debugDrop [Some siteMsg, Some debugMsg, Some hostMsg, event [(''debug_mode'', ''on'')] []] = Inr r
          \<and> elems r = [Some siteMsg, Some hostMsg] \<and> len r = 2)"
proof -
  let ?es = "[Some siteMsg, Some debugMsg, Some hostMsg, event [(''debug_mode'', ''on'')] []]"
  have h: "list_all (\<lambda>e. markCount demoEnv debugDrop e \<le> 1) ?es" by code_simp
  have f: "filter (\<lambda>e. \<not> marked demoEnv debugDrop e) ?es = [Some siteMsg, Some hostMsg]" by code_simp
  have g: "length ?es - length (filter (marked demoEnv debugDrop) ?es) = 2" by code_simp
  have "\<exists>r. Apply demoEnv debugDrop ?es = Inr r
           \<and> elems r = filter (\<lambda>e. \<not> marked demoEnv debugDrop e) ?es
           \<and> len r = length ?es - length (filter (marked demoEnv debugDrop) ?es)"
    by (rule Apply_drops_marked) (rule h[unfolded list_all_iff, rule_format])
  then show ?thesis using h unfolding f g by blast
qed

text \<open>The claim as stated fails on an event whose condition evaluation fails: the event's
  tag key matches a tag-name pattern, so it matches a drop criterion, and it is
  returned.\<close>

theorem failed_condition_match_is_kept:
  "matchesCriterion demoEnv condDrop siteMsg
   \<and> Apply demoEnv condDrop [Some siteMsg] = Inr (sliceOf [Some siteMsg])"
  by code_simp

subsection \<open>C2: a condition whose evaluation fails\<close>

text \<open>
  Claim C2, as amended. When the evaluation of the condition fails on an event, the body
  of the loop ends for that event (\<^verbatim>\<open>continue\<close>): the event's index is not recorded,
  neither through the condition nor through the four regular-expression criteria, which
  are not evaluated on it. No error leaves \<^verbatim>\<open>Apply\<close>, and the events before and after
  are scanned as they would be without it.
\<close>

theorem condition_error_skips_event:
  assumes "conditionFails E d ev"
  shows "scanEvent E d i (Some ev) toDrop = toDrop
       \<and> scanBatch E d (pre @ Some ev # post) 0 []
           = scanBatch E d pre 0 [] @ scanBatch E d post (int (length pre) + 1) []
       \<and> int (length pre) \<notin> set (scanBatch E d (pre @ Some ev # post) 0 [])
       \<and> (\<exists>r. Apply E d (pre @ Some ev # post) = Inr r)"
proof -
  have a: "scanEvent E d i (Some ev) td = td" for i td
    using assms by (simp add: scanEvent_eq markCount_fails)
  have b: "scanBatch E d (pre @ Some ev # post) 0 []
           = scanBatch E d pre 0 [] @ scanBatch E d post (int (length pre) + 1) []"
    using scanBatch_acc[of E d post "int (length pre) + 1" "scanBatch E d pre 0 []"]
    by (simp add: scanBatch_append a)
  have "\<not> marked E d ((pre @ Some ev # post) ! length pre)"
    using assms by (simp add: marked_def)
  then have c: "int (length pre) \<notin> set (scanBatch E d (pre @ Some ev # post) 0 [])"
    unfolding scanBatch_set by auto
  show ?thesis using a b c Apply_total[of E d "pre @ Some ev # post"] by blast
qed

theorem condition_error_skips_event_witness:
  "conditionFails demoEnv condDrop siteMsg
   \<and> scanEvent demoEnv condDrop 0 (Some siteMsg) [] = []
   \<and> scanBatch demoEnv condDrop [Some siteMsg, event [(''site'', ''lab''), (''drop'', ''no'')] []] 0 [] = [1]
   \<and> (\<exists>r. Apply demoEnv condDrop [Some siteMsg, event [(''site'', ''lab''), (''drop'', ''no'')] []] = Inr r)"
proof -
  let ?e = "event [(''site'', ''lab''), (''drop'', ''no'')] []"
  have h: "conditionFails demoEnv condDrop siteMsg" by code_simp
  have a: "scanBatch demoEnv condDrop [Some siteMsg, ?e] 0 [] = [1]" by code_simp
  note t = condition_error_skips_event[OF h, of 0 "[]" "[]" "[?e]"]
  from t have b: "scanEvent demoEnv condDrop 0 (Some siteMsg) [] = []" by blast
  from t have "\<exists>r. Apply demoEnv condDrop ([] @ Some siteMsg # [?e]) = Inr r" by blast
  then have c: "\<exists>r. Apply demoEnv condDrop [Some siteMsg, ?e] = Inr r" by simp
  show ?thesis using h a b c by blast
qed

text \<open>The claim as stated fails: the four criteria, evaluated on the event, would record
  its index; the loop body records nothing.\<close>

theorem failed_condition_skips_regex_criteria:
  "conditionFails demoEnv condDrop siteMsg
   \<and> scanTags demoEnv condDrop (evTags siteMsg) 0 (scanValues demoEnv condDrop (evValues siteMsg) 0 []) = [0]
   \<and> scanEvent demoEnv condDrop 0 (Some siteMsg) [] = []"
  by code_simp

subsection \<open>C3: an index recorded more than once\<close>

text \<open>
  Claim C3. The \<^verbatim>\<open>break\<close> after a match leaves the loop over the patterns only, so an
  event's index is recorded once for every matching occurrence (lemma
  \<open>scanEvent_eq\<close>). With the tag-name pattern \<open>debug_\<close>, an event with two tags
  of such names is recorded twice, and the removal pass removes the element after it as
  well: the batch of that event and of an event that matches nothing comes back empty,
  whereas with a single matching tag the second event is returned.
\<close>

theorem duplicate_marks_example:
  "scanBatch demoEnv debugDrop [Some debugMsg2, Some siteMsg] 0 [] = [0, 0]
   \<and> Apply demoEnv debugDrop [Some debugMsg2, Some siteMsg] = Inr \<lparr>array = [Some siteMsg, Some siteMsg], len = 0\<rparr>
   \<and> scanBatch demoEnv debugDrop [Some debugMsg, Some siteMsg] 0 [] = [0]
   \<and> Apply demoEnv debugDrop [Some debugMsg, Some siteMsg] = Inr \<lparr>array = [Some siteMsg, Some siteMsg], len = 1\<rparr>"
  by code_simp

subsection \<open>C4: the empty condition\<close>

text \<open>
  Claim C4, as amended. \<^verbatim>\<open>Init\<close> parses and compiles the trimmed condition also when
  it is empty. When the configuration decodes, the trimmed condition is empty and every
  regular-expression source compiles, \<^verbatim>\<open>Init\<close> succeeds exactly when the query
  library parses and compiles the empty query; the receiver's condition is then empty, and
  the scan of \<^verbatim>\<open>Apply\<close> does not depend on the evaluation of conditions.
\<close>

theorem Init_empty_condition:
  assumes "snd (DecodeConfig E cfg d) = None"
    and "TrimSpace E (Condition (configured E cfg opts d)) = []"
    and "allCompile E (configured E cfg opts d)"
  shows "(snd (Init E cfg opts d) = None) = queryCompiles E []
       \<and> Condition (fst (Init E cfg opts d)) = []
       \<and> scanBatch (E\<lparr>CheckCondition := f\<rparr>) (fst (Init E cfg opts d)) es i toDrop
           = scanBatch E (fst (Init E cfg opts d)) es i toDrop
       \<and> Apply (E\<lparr>CheckCondition := f\<rparr>) (fst (Init E cfg opts d)) es
           = Apply E (fst (Init E cfg opts d)) es"
proof -
  let ?r = "fst (Init E cfg opts d)"
  have i: "Init E cfg opts d = compileDrop E (configured E cfg opts d)"
    using assms(1) by (simp add: Init_decode configured_def)
  have a: "(snd (Init E cfg opts d) = None) = queryCompiles E []"
    unfolding i using assms(2,3) by (simp add: compileDrop_None)
  have b: "Condition ?r = []"
    unfolding i using assms(2) by (simp add: compileDrop_def Let_def split: sum.splits prod.splits option.splits)
  have v: "valueHits (E\<lparr>CheckCondition := f\<rparr>) ?r = valueHits E ?r"
    by (rule ext) (simp add: valueHits_def)
  have t: "tagHits (E\<lparr>CheckCondition := f\<rparr>) ?r = tagHits E ?r"
    by (rule ext) (simp add: tagHits_def)
  have m: "markCount (E\<lparr>CheckCondition := f\<rparr>) ?r e = markCount E ?r e" for e
    using b by (cases e) (simp_all add: markCount_def conditionFails_def conditionHolds_def regexHits_def v t)
  have c: "scanBatch (E\<lparr>CheckCondition := f\<rparr>) ?r es i toDrop = scanBatch E ?r es i toDrop"
    for i toDrop
    by (induction es arbitrary: i toDrop) (simp_all add: scanEvent_eq m)
  have e: "Apply (E\<lparr>CheckCondition := f\<rparr>) ?r es = Apply E ?r es"
    by (simp add: Apply_def c)
  show ?thesis using a b c e by blast
qed

theorem Init_empty_condition_witness:
  "snd (DecodeConfig demoEnv (config ''  '' [''debug_''] [] [] []) emptyDrop) = None
   \<and> TrimSpace demoEnv (Condition (configured demoEnv (config ''  '' [''debug_''] [] [] []) [] emptyDrop)) = []
   \<and> allCompile demoEnv (configured demoEnv (config ''  '' [''debug_''] [] [] []) [] emptyDrop)
   \<and> queryCompiles demoEnv []
   \<and> snd (Init demoEnv (config ''  '' [''debug_''] [] [] []) [] emptyDrop) = None
   \<and> Condition (fst (Init demoEnv (config ''  '' [''debug_''] [] [] []) [] emptyDrop)) = []
   \<and> Apply (demoEnv\<lparr>CheckCondition := (\<lambda>c ev. Inr True)\<rparr>)
         (fst (Init demoEnv (config ''  '' [''debug_''] [] [] []) [] emptyDrop)) [Some siteMsg]
       = Inr (sliceOf [Some siteMsg])"
proof -
  let ?cfg = "config ''  '' [''debug_''] [] [] []"
  have h1: "snd (DecodeConfig demoEnv ?cfg emptyDrop) = None" by code_simp
  have h2: "TrimSpace demoEnv (Condition (configured demoEnv ?cfg [] emptyDrop)) = []" by code_simp
  have h3: "allCompile demoEnv (configured demoEnv ?cfg [] emptyDrop)" by code_simp
  have q: "queryCompiles demoEnv []" by code_simp
  have a: "Apply demoEnv (fst (Init demoEnv ?cfg [] emptyDrop)) [Some siteMsg] = Inr (sliceOf [Some siteMsg])"
    by code_simp
  note t = Init_empty_condition[OF h1 h2 h3, of "\<lambda>c ev. Inr True" "[Some siteMsg]" 0 "[]"]
  from t q have b: "snd (Init demoEnv ?cfg [] emptyDrop) = None" by blast
  from t have c: "Condition (fst (Init demoEnv ?cfg [] emptyDrop)) = []" by blast
  from t a have d: "Apply (demoEnv\<lparr>CheckCondition := (\<lambda>c ev. Inr True)\<rparr>)
         (fst (Init demoEnv ?cfg [] emptyDrop)) [Some siteMsg] = Inr (sliceOf [Some siteMsg])"
    by simp
  show ?thesis using h1 h2 h3 q b c d by blast
qed

text \<open>The claim as stated fails where the parser rejects the empty query: every source
  compiles and \<^verbatim>\<open>Init\<close> returns the parser's error.\<close>

theorem empty_condition_is_parsed:
  "Condition (config [] [''debug_''] [] [] []) = []
   \<and> allCompile strictEnv (config [] [''debug_''] [] [] [])
   \<and> snd (Init strictEnv (config [] [''debug_''] [] [] []) [] emptyDrop) = Some (Error ''unexpected token'')"
  by code_simp

subsection \<open>C5: an index not below the current length\<close>

text \<open>
  Claim C5, as amended. The removal pass takes the indices from the last of the list to the
  first. The first index it finds that is not below the current length ends the pass
  (\<^verbatim>\<open>break\<close>) without a failure: that index removes nothing, and no index before it
  in the list is looked at, within bounds or not. The result is the one reached by the
  indices after it in the list.
\<close>

theorem shift_stops_at_out_of_range:
  assumes "shift s hi = Inr r" "int (len r) \<le> k"
  shows "shift s (lo @ k # hi) = Inr r"
proof -
  have "shiftLoop s (rev hi) = Inr r" using assms(1) by (simp add: shift_rev)
  then have "shiftLoop s (rev hi @ k # rev lo) = Inr r" using assms(2) by (rule shiftLoop_stop)
  then show ?thesis by (simp add: shift_rev)
qed

theorem shift_stops_at_out_of_range_witness:
  "shift (sliceOf [10, 20, 30 :: nat]) [2] = Inr \<lparr>array = [10, 20, 30], len = 2\<rparr>
   \<and> int (len \<lparr>array = [10, 20, 30 :: nat], len = 2\<rparr>) \<le> 5
   \<and> shift (sliceOf [10, 20, 30 :: nat]) [0, 5, 2] = Inr \<lparr>array = [10, 20, 30], len = 2\<rparr>"
proof -
  have h1: "shift (sliceOf [10, 20, 30 :: nat]) [2] = Inr \<lparr>array = [10, 20, 30], len = 2\<rparr>" by code_simp
  have h2: "int (len \<lparr>array = [10, 20, 30 :: nat], len = 2\<rparr>) \<le> 5" by simp
  show ?thesis using shift_stops_at_out_of_range[OF h1 h2, of "[0]"] h1 by simp
qed

text \<open>The claim as stated fails: index 5 is out of bounds, and index 0, within bounds, is
  not removed.\<close>

theorem in_bounds_index_not_removed:
  "shift (sliceOf [10, 20, 30 :: nat]) [0, 5] = Inr (sliceOf [10, 20, 30])"
  by code_simp

subsection \<open>C6: nothing matches\<close>

text \<open>
  Claim C6. When no event of the batch matches a drop criterion (its condition does not
  hold and none of the four regular-expression criteria matches it), \<^verbatim>\<open>Apply\<close>
  returns the slice it was given: the same cells with the same contents, and the same
  length.
\<close>

theorem Apply_identity:
  assumes "\<And>ev. Some ev \<in> set es \<Longrightarrow> \<not> matchesCriterion E d ev"
  shows "Apply E d es = Inr (sliceOf es)"
proof -
  have "\<not> marked E d e" if "e \<in> set es" for e
    using assms that by (cases e) (auto simp: marked_def)
  then have "scanBatch E d es 0 [] = []" by (rule not_marked_scan)
  then show ?thesis by (simp add: Apply_def)
qed

theorem Apply_identity_witness:
  "\<not> matchesCriterion demoEnv debugDrop siteMsg
   \<and> \<not> matchesCriterion demoEnv debugDrop hostMsg
   \<and> Apply demoEnv debugDrop [Some siteMsg, None, Some hostMsg] = Inr (sliceOf [Some siteMsg, None, Some hostMsg])"
proof -
  have a: "\<not> matchesCriterion demoEnv debugDrop siteMsg" by code_simp
  have b: "\<not> matchesCriterion demoEnv debugDrop hostMsg" by code_simp
  have h: "\<And>ev. Some ev \<in> set [Some siteMsg, None, Some hostMsg] \<Longrightarrow> \<not> matchesCriterion demoEnv debugDrop ev"
    using a b by auto
  show ?thesis using Apply_identity[OF h] a b by blast
qed

subsection \<open>C7: Init fails when anything fails to compile\<close>

text \<open>
  Claim C7. \<^verbatim>\<open>Init\<close> returns \<^verbatim>\<open>nil\<close> exactly when the configuration decodes, the
  trimmed condition parses and compiles, and every source of the four lists compiles; in
  every other case it returns an error. A list is compiled up to its first failing source,
  whose error is returned. When \<^verbatim>\<open>Init\<close> returns \<^verbatim>\<open>nil\<close>, each of the four
  compiled lists holds the compiled form of every source of its list, in order.
\<close>

theorem Init_fail_fast:
  "(snd (Init E cfg opts d) = None)
     = (snd (DecodeConfig E cfg d) = None
        \<and> queryCompiles E (TrimSpace E (Condition (configured E cfg opts d)))
        \<and> allCompile E (configured E cfg opts d))
   \<and> (snd (Init E cfg opts d) = None \<longrightarrow>
        fst (Init E cfg opts d) =
          (configured E cfg opts d)
            \<lparr>Condition := TrimSpace E (Condition (configured E cfg opts d)),
             tagNames := compileList E (TagNames (configured E cfg opts d)),
             valueNames := compileList E (ValueNames (configured E cfg opts d)),
             tags := compileList E (Tags (configured E cfg opts d)),
             values := compileList E (Values (configured E cfg opts d)),
             code := Some (projr (Compile E (projr (Parse E (TrimSpace E (Condition (configured E cfg opts d)))))))\<rparr>)
   \<and> (list_all (\<lambda>s. \<not> isl (regexpCompile E s)) pre \<and> regexpCompile E s = Inl err \<longrightarrow>
        compileRegs (regexpCompile E) (pre @ s # post) acc = (acc @ compileList E pre, Some err))"
proof -
  have ff: "list_all (\<lambda>s. \<not> isl (regexpCompile E s)) pre \<and> regexpCompile E s = Inl err \<longrightarrow>
        compileRegs (regexpCompile E) (pre @ s # post) acc = (acc @ compileList E pre, Some err)"
    by (simp add: compileRegs_first_failure compileList_def)
  show ?thesis
  proof (cases "snd (DecodeConfig E cfg d) = None")
    case False
    then show ?thesis using ff by (auto simp: Init_decode)
  next
    case True
    then have i: "Init E cfg opts d = compileDrop E (configured E cfg opts d)"
      by (simp add: Init_decode configured_def)
    show ?thesis unfolding i using True ff compileDrop_ok[of E "configured E cfg opts d"]
      by (auto simp: compileDrop_None)
  qed
qed

theorem Init_fail_fast_witness:
  "\<not> allCompile demoEnv (configured demoEnv (config [] [''debug_''] [] [''(''] []) [] emptyDrop)
   \<and> snd (Init demoEnv (config [] [''debug_''] [] [''(''] []) [] emptyDrop) \<noteq> None
   \<and> \<not> queryCompiles demoEnv (TrimSpace demoEnv (Condition (configured demoEnv (config ''|'' [] [] [] []) [] emptyDrop)))
   \<and> snd (Init demoEnv (config ''|'' [] [] [] []) [] emptyDrop) \<noteq> None
   \<and> snd (Init demoEnv (config ''drop'' [''debug_''] [''n''] [''lab''] [''42'']) [] emptyDrop) = None
   \<and> fst (Init demoEnv (config ''drop'' [''debug_''] [''n''] [''lab''] [''42'']) [] emptyDrop)
       = \<lparr>Condition = ''drop'', TagNames = [''debug_''], ValueNames = [''n''], Tags = [''lab''],
          Values = [''42''], Debug = False, tagNames = [''debug_''], valueNames = [''n''],
          tags = [''lab''], values = [''42''], code = Some ''drop''\<rparr>
   \<and> compileRegs (regexpCompile demoEnv) [''debug_'', ''('', ''site''] []
       = ([''debug_''], Some (Error ''missing closing )''))"
proof -
  have a: "\<not> allCompile demoEnv (configured demoEnv (config [] [''debug_''] [] [''(''] []) [] emptyDrop)"
    by code_simp
  have b: "\<not> queryCompiles demoEnv (TrimSpace demoEnv (Condition (configured demoEnv (config ''|'' [] [] [] []) [] emptyDrop)))"
    by code_simp
  have c: "snd (Init demoEnv (config ''drop'' [''debug_''] [''n''] [''lab''] [''42'']) [] emptyDrop) = None"
    by code_simp
  have d: "(configured demoEnv (config ''drop'' [''debug_''] [''n''] [''lab''] [''42'']) [] emptyDrop)
            \<lparr>Condition := TrimSpace demoEnv (Condition (configured demoEnv (config ''drop'' [''debug_''] [''n''] [''lab''] [''42'']) [] emptyDrop)),
             tagNames := compileList demoEnv (TagNames (configured demoEnv (config ''drop'' [''debug_''] [''n''] [''lab''] [''42'']) [] emptyDrop)),
             valueNames := compileList demoEnv (ValueNames (configured demoEnv (config ''drop'' [''debug_''] [''n''] [''lab''] [''42'']) [] emptyDrop)),
             tags := compileList demoEnv (Tags (configured demoEnv (config ''drop'' [''debug_''] [''n''] [''lab''] [''42'']) [] emptyDrop)),
             values := compileList demoEnv (Values (configured demoEnv (config ''drop'' [''debug_''] [''n''] [''lab''] [''42'']) [] emptyDrop)),
             code := Some (projr (Compile demoEnv (projr (Parse demoEnv (TrimSpace demoEnv (Condition (configured demoEnv (config ''drop'' [''debug_''] [''n''] [''lab''] [''42'']) [] emptyDrop)))))))\<rparr>
         = \<lparr>Condition = ''drop'', TagNames = [''debug_''], ValueNames = [''n''], Tags = [''lab''],
          Values = [''42''], Debug = False, tagNames = [''debug_''], valueNames = [''n''],
          tags = [''lab''], values = [''42''], code = Some ''drop''\<rparr>"
    by code_simp
  have e: "list_all (\<lambda>s. \<not> isl (regexpCompile demoEnv s)) [''debug_'']
           \<and> regexpCompile demoEnv ''('' = Inl (Error ''missing closing )'')"
    by code_simp
  have f: "[] @ compileList demoEnv [''debug_''] = [''debug_'']" by code_simp
  have g: "compileRegs (regexpCompile demoEnv) ([''debug_''] @ ''('' # [''site'']) []
       = ([''debug_''], Some (Error ''missing closing )''))"
    using Init_fail_fast[where E = demoEnv and pre = "[''debug_'']" and s = "''(''"
        and err = "Error ''missing closing )''" and post = "[''site'']" and acc = "[]"] e
    unfolding f by blast
  have h: "snd (Init demoEnv (config [] [''debug_''] [] [''(''] []) [] emptyDrop) \<noteq> None"
    using Init_fail_fast[of demoEnv "config [] [''debug_''] [] [''(''] []" "[]" emptyDrop] a by blast
  have i: "snd (Init demoEnv (config ''|'' [] [] [] []) [] emptyDrop) \<noteq> None"
    using Init_fail_fast[of demoEnv "config ''|'' [] [] [] []" "[]" emptyDrop] b by blast
  have j: "fst (Init demoEnv (config ''drop'' [''debug_''] [''n''] [''lab''] [''42'']) [] emptyDrop)
       = \<lparr>Condition = ''drop'', TagNames = [''debug_''], ValueNames = [''n''], Tags = [''lab''],
          Values = [''42''], Debug = False, tagNames = [''debug_''], valueNames = [''n''],
          tags = [''lab''], values = [''42''], code = Some ''drop''\<rparr>"
    using Init_fail_fast[of demoEnv "config ''drop'' [''debug_''] [''n''] [''lab''] [''42'']" "[]" emptyDrop] c
    unfolding d by blast
  show ?thesis using a b c g h i j by simp
qed

subsection \<open>C8: values that are not strings\<close>

text \<open>
  Claim C8. A value whose dynamic type is not string is matched by no value pattern: the
  loop over the value patterns records nothing for it, whatever the patterns are, and an
  entry with such a value contributes to the scan through its key only.
\<close>

theorem non_string_never_matched:
  assumes "\<And>s. v \<noteq> StringV s"
  shows "scanValRegs M res v i toDrop = toDrop
       \<and> scanValues E d (pre @ (k, v) # post) i toDrop
           = scanValues E d post i (scanRegs (MatchString E) (valueNames d) k i (scanValues E d pre i toDrop))"
proof -
  have nv: "\<not> valMatch M res v" "\<not> valMatch (MatchString E) (values d) v"
    using assms by (cases v; auto simp: valMatch_def)+
  have a: "scanValRegs M res v i toDrop = toDrop" by (simp add: scanValRegs_eq nv)
  have b: "scanValues E d (xs @ ys) i td = scanValues E d ys i (scanValues E d xs i td)" for xs ys td
    by (induction xs arbitrary: td) auto
  show ?thesis using a by (simp add: b scanValRegs_eq nv)
qed

theorem non_string_never_matched_witness:
  "(\<forall>s. IntV 42 \<noteq> StringV s)
   \<and> scanValRegs contains [''42''] (IntV 42) 0 [] = []
   \<and> scanValRegs contains [''42''] (StringV ''42'') 0 [] = [0]
   \<and> scanValues demoEnv (compiled [] [] [] [] [''42'']) [(''n'', IntV 42)] 0 [] = []"
proof -
  have h: "\<And>s. IntV 42 \<noteq> StringV s" by simp
  have a: "scanValRegs contains [''42''] (StringV ''42'') 0 [] = [0]" by code_simp
  have b: "scanRegs (MatchString demoEnv) (valueNames (compiled [] [] [] [] [''42''])) ''n'' 0 [] = []"
    by code_simp
  show ?thesis
    using non_string_never_matched[OF h, of contains "[''42'']" 0 "[]" demoEnv
        "compiled [] [] [] [] [''42'']" "[]" "''n''" "[]"] a b
    by simp
qed

subsection \<open>C9: absent elements\<close>

text \<open>
  Claim C9. An absent element is never recorded (lemma \<open>scanEvent_None\<close>) and
  \<^verbatim>\<open>Apply\<close> never fails (lemma \<open>Apply_total\<close>), but an absent element does not
  always reach the output: after an event that is recorded twice, the removal pass removes
  the absent element as well.
\<close>

theorem nil_element_example:
  "scanBatch demoEnv debugDrop [Some debugMsg2, None] 0 [] = [0, 0]
   \<and> Apply demoEnv debugDrop [Some debugMsg2, None] = Inr \<lparr>array = [None, None], len = 0\<rparr>"
  by code_simp

subsection \<open>C10: the result is a subsequence\<close>

text \<open>
  Claim C10, as amended. For every sequence and every list of indices none of which is
  negative, duplicates and indices beyond the length included, \<^verbatim>\<open>shift\<close> returns a
  subsequence of its input: every element of the result occurs in the input, the order is
  kept, no element occurs more often than in the input, and the result is not longer than
  the input. For every batch and every receiver, \<^verbatim>\<open>Apply\<close> returns such a
  subsequence of the batch.
\<close>

theorem shift_subsequence:
  assumes "\<And>k. k \<in> set ks \<Longrightarrow> 0 \<le> k"
  shows "(\<exists>r. shift (sliceOf xs) ks = Inr r \<and> subseq (elems r) xs \<and> set (elems r) \<subseteq> set xs
              \<and> (\<forall>a. count_list (elems r) a \<le> count_list xs a) \<and> length (elems r) \<le> length xs)
       \<and> (\<exists>r. Apply E d es = Inr r \<and> subseq (elems r) es \<and> set (elems r) \<subseteq> set es
              \<and> (\<forall>a. count_list (elems r) a \<le> count_list es a) \<and> length (elems r) \<le> length es)"
proof -
  have "\<exists>r. shiftLoop (sliceOf xs) (rev ks) = Inr r"
    by (rule shiftLoop_total) (use assms in simp)
  then obtain r where r: "shift (sliceOf xs) ks = Inr r" by (auto simp: shift_rev)
  then have "subseq (elems r) xs"
    using shiftLoop_valid[OF validSlice_sliceOf(1), of xs "rev ks" r]
    by (simp add: shift_rev validSlice_sliceOf)
  then have 1: "\<exists>r. shift (sliceOf xs) ks = Inr r \<and> subseq (elems r) xs \<and> set (elems r) \<subseteq> set xs
              \<and> (\<forall>a. count_list (elems r) a \<le> count_list xs a) \<and> length (elems r) \<le> length xs"
    using r subseq_facts[of "elems r" xs] by blast
  obtain q where q: "Apply E d es = Inr q" "subseq (elems q) es"
    using Apply_total[of E d es] by blast
  then have 2: "\<exists>r. Apply E d es = Inr r \<and> subseq (elems r) es \<and> set (elems r) \<subseteq> set es
              \<and> (\<forall>a. count_list (elems r) a \<le> count_list es a) \<and> length (elems r) \<le> length es"
    using subseq_facts[of "elems q" es] by blast
  show ?thesis using 1 2 by blast
qed

theorem shift_subsequence_witness:
  "list_all (\<lambda>k. 0 \<le> k) [7, 1, 1 :: int]
   \<and> shift (sliceOf [10, 20, 30 :: nat]) [7, 1, 1] = Inr \<lparr>array = [10, 30, 30], len = 1\<rparr>
   \<and> (\<exists>r. shift (sliceOf [10, 20, 30 :: nat]) [7, 1, 1] = Inr r \<and> subseq (elems r) [10, 20, 30]
          \<and> length (elems r) \<le> length [10, 20, 30 :: nat])
   \<and> (\<exists>r. Apply demoEnv debugDrop [Some debugMsg2, Some siteMsg] = Inr r
          \<and> subseq (elems r) [Some debugMsg2, Some siteMsg])"
proof -
  have hl: "list_all (\<lambda>k. 0 \<le> k) [7, 1, 1 :: int]" by simp
  have h: "\<And>k. k \<in> set [7, 1, 1 :: int] \<Longrightarrow> 0 \<le> k" by auto
  have a: "shift (sliceOf [10, 20, 30 :: nat]) [7, 1, 1] = Inr \<lparr>array = [10, 30, 30], len = 1\<rparr>" by code_simp
  note t = shift_subsequence[where ks = "[7, 1, 1]" and xs = "[10, 20, 30 :: nat]" and E = demoEnv
        and d = debugDrop and es = "[Some debugMsg2, Some siteMsg]", OF h]
  from t have b: "\<exists>r. shift (sliceOf [10, 20, 30 :: nat]) [7, 1, 1] = Inr r \<and> subseq (elems r) [10, 20, 30]
          \<and> length (elems r) \<le> length [10, 20, 30 :: nat]" by blast
  from t have c: "\<exists>r. Apply demoEnv debugDrop [Some debugMsg2, Some siteMsg] = Inr r
          \<and> subseq (elems r) [Some debugMsg2, Some siteMsg]" by blast
  show ?thesis using hl a b c by blast
qed

text \<open>The claim as stated fails on a negative index, where the slice expression
  panics.\<close>

theorem negative_index_panics:
  "shift (sliceOf [10 :: nat]) [-1] = Inl SliceBoundsOutOfRange"
  by code_simp

end
